theory Spec2Isabelle
  imports Complex_Main "HOL-Library.Multiset"
begin

section \<open>The web scraper of \<^verbatim>\<open>webscrape.py\<close>\<close>

text \<open>
  The program is one function, \<^verbatim>\<open>scrape_articles\<close>, with a local helper
  \<^verbatim>\<open>write_with_line_breaks\<close>, and a command-line entry. Everything it does to
  the outside (the network, the clock, the output file, the terminal) is made explicit:
  what the outside answers is a \<open>world\<close>, what the program has done to it so far is
  a value of \<open>effects\<close>.

  A Python \<^verbatim>\<open>str\<close> is a \<open>string\<close>, one \<open>char\<close> per character of the
  \<^verbatim>\<open>str\<close>. An exception is a value of \<open>exn\<close>: the program only tells
  \<^verbatim>\<open>IOError\<close> from every other \<^verbatim>\<open>Exception\<close>, and prints the message.
  Every call that reaches outside can raise: the request, \<^verbatim>\<open>urljoin\<close>, opening,
  writing and closing the file, and \<^verbatim>\<open>print\<close>. What is not an
  \<^verbatim>\<open>Exception\<close> (an interrupt from the keyboard) is left out, and every call to the
  outside is taken to return or raise.
\<close>

subsection \<open>Exceptions, pages, the world and the effects\<close>

datatype exn = IOError string | OtherException string

fun str_exn :: "exn \<Rightarrow> string" where
  "str_exn (IOError m) = m"
| "str_exn (OtherException m) = m"

text \<open>
  What \<^verbatim>\<open>BeautifulSoup(response.text, "html.parser")\<close> gives the program:
  \<open>a_hrefs\<close> is \<^verbatim>\<open>link.get("href")\<close> for every \<^verbatim>\<open>a\<close> element in document
  order (\<open>None\<close> when the element has no such attribute), \<open>page_text\<close> is
  \<^verbatim>\<open>soup.text\<close> (the same string as \<^verbatim>\<open>soup.get_text()\<close>), and
  \<open>page_title\<close> is \<^verbatim>\<open>soup.title.string\<close> as printed, when \<^verbatim>\<open>soup.title\<close>
  exists.
\<close>

record page =
  a_hrefs :: "string option list"
  page_text :: string
  page_title :: "string option"

text \<open>
  The outside.
  \<^item> \<open>requests_get n u\<close> is the outcome of the \<open>n\<close>-th call
    \<^verbatim>\<open>requests.get(u)\<close> of the session and of parsing the response: an exception
    or a page.
  \<^item> \<open>urljoin\<close> is \<^verbatim>\<open>urllib.parse.urljoin\<close>, which raises
    \<^verbatim>\<open>ValueError\<close> on some references; \<open>str_lower\<close> is \<^verbatim>\<open>str.lower\<close>.
  \<^item> \<open>time_time n\<close> is the value of the \<open>n\<close>-th call of \<^verbatim>\<open>time.time()\<close>.
  \<^item> \<open>open_error f\<close> is the exception that opening \<open>f\<close> for writing raises, if
    any; \<open>write_error n\<close> the exception that the \<open>n\<close>-th call of
    \<^verbatim>\<open>out_file.write\<close> raises, if any; \<open>close_error\<close> the exception that closing
    the file at the end of the \<^verbatim>\<open>with\<close> block raises, if any. The file is
    buffered: a failure to bring the data to the disk can show at a write or only at
    the close. \<open>left_on_disk\<close> is what the file holds after a close that raised.
  \<^item> \<open>print_error n\<close> is the exception that the \<open>n\<close>-th call of
    \<^verbatim>\<open>print\<close> raises, if any; \<open>shutdown_flush_fails\<close> tells whether the
    interpreter fails to flush the standard streams when the process ends.
  \<^item> \<open>parse_int\<close> and \<open>parse_float\<close> are \<^verbatim>\<open>int\<close> and \<^verbatim>\<open>float\<close> on a
    command-line argument (\<open>None\<close>: \<^verbatim>\<open>ValueError\<close>).
\<close>

record world =
  requests_get :: "nat \<Rightarrow> string \<Rightarrow> exn + page"
  urljoin :: "string \<Rightarrow> string \<Rightarrow> exn + string"
  str_lower :: "string \<Rightarrow> string"
  time_time :: "nat \<Rightarrow> real"
  open_error :: "string \<Rightarrow> exn option"
  write_error :: "nat \<Rightarrow> exn option"
  close_error :: "exn option"
  left_on_disk :: "string list"
  print_error :: "nat \<Rightarrow> exn option"
  shutdown_flush_fails :: bool
  parse_int :: "string \<Rightarrow> int option"
  parse_float :: "string \<Rightarrow> real option"

text \<open>
  What the program has done so far: the strings that calls of
  \<^verbatim>\<open>out_file.write\<close> have taken, whether the file is open or closed, whether a
  write has raised since the file was opened, the number of calls of
  \<^verbatim>\<open>out_file.write\<close>, the lines printed, the number of calls of \<^verbatim>\<open>print\<close>
  and of \<^verbatim>\<open>time.time()\<close>, the calls of \<^verbatim>\<open>requests.get\<close>, each with the depth
  of the entry it was made for, and all of these in the order in which they happened.
\<close>

datatype event =
  Requested string int | Written string | WriteRaised exn | Printed string | PrintRaised exn
| ClockRead | FileClosed | CloseRaised exn

datatype file_state = NotOpened | IsOpen | IsClosed | CloseFailed

record effects =
  out_file :: "string list"
  out_file_state :: file_state
  write_raised :: bool
  write_calls :: nat
  console :: "string list"
  print_calls :: nat
  clock_reads :: nat
  requests :: "(string \<times> int) list"
  trace :: "event list"

definition no_effects :: effects where
  "no_effects =
     \<lparr>out_file = [], out_file_state = NotOpened, write_raised = False, write_calls = 0,
      console = [], print_calls = 0, clock_reads = 0, requests = [], trace = []\<rparr>"

text \<open>\<^verbatim>\<open>print(s)\<close>: it raises, or the line is on the terminal.\<close>

definition py_print :: "world \<Rightarrow> string \<Rightarrow> effects \<Rightarrow> exn option \<times> effects" where
  "py_print w s fx =
     (case print_error w (print_calls fx) of
        Some e \<Rightarrow>
          (Some e, fx\<lparr>print_calls := Suc (print_calls fx), trace := trace fx @ [PrintRaised e]\<rparr>)
      | None \<Rightarrow>
          (None, fx\<lparr>console := console fx @ [s], print_calls := Suc (print_calls fx),
                   trace := trace fx @ [Printed s]\<rparr>))"

text \<open>\<^verbatim>\<open>time.time()\<close>.\<close>

definition read_clock :: "world \<Rightarrow> effects \<Rightarrow> real \<times> effects" where
  "read_clock w fx =
     (time_time w (clock_reads fx),
      fx\<lparr>clock_reads := Suc (clock_reads fx), trace := trace fx @ [ClockRead]\<rparr>)"

text \<open>
  \<^verbatim>\<open>BeautifulSoup(requests.get(current_url).text, "html.parser")\<close>, for the entry
  at \<open>current_depth\<close>.
\<close>

definition get_soup :: "world \<Rightarrow> string \<Rightarrow> int \<Rightarrow> effects \<Rightarrow> (exn + page) \<times> effects" where
  "get_soup w current_url current_depth fx =
     (requests_get w (length (requests fx)) current_url,
      fx\<lparr>requests := requests fx @ [(current_url, current_depth)],
         trace := trace fx @ [Requested current_url current_depth]\<rparr>)"

text \<open>
  \<^verbatim>\<open>open(output_file, "w", encoding="utf-8")\<close>: it raises, or the file is open
  and empty.
\<close>

definition open_w :: "world \<Rightarrow> string \<Rightarrow> effects \<Rightarrow> exn option \<times> effects" where
  "open_w w f fx =
     (case open_error w f of
        Some e \<Rightarrow> (Some e, fx)
      | None \<Rightarrow> (None, fx\<lparr>out_file := [], out_file_state := IsOpen, write_raised := False\<rparr>))"

text \<open>
  \<^verbatim>\<open>file.write(s)\<close>: it raises, or the file takes \<open>s\<close>. What the file has taken
  is in its buffer and need not be on the disk.
\<close>

definition file_write :: "world \<Rightarrow> string \<Rightarrow> effects \<Rightarrow> exn option \<times> effects" where
  "file_write w s fx =
     (case write_error w (write_calls fx) of
        Some e \<Rightarrow>
          (Some e, fx\<lparr>write_raised := True, write_calls := Suc (write_calls fx),
                     trace := trace fx @ [WriteRaised e]\<rparr>)
      | None \<Rightarrow>
          (None, fx\<lparr>out_file := out_file fx @ [s], write_calls := Suc (write_calls fx),
                   trace := trace fx @ [Written s]\<rparr>))"

text \<open>
  The close of the file when the \<^verbatim>\<open>with\<close> block is left, on whatever way: it
  raises, or the file is closed.
\<close>

definition close_file :: "world \<Rightarrow> effects \<Rightarrow> exn option \<times> effects" where
  "close_file w fx =
     (case close_error w of
        Some e \<Rightarrow>
          (Some e, fx\<lparr>out_file_state := CloseFailed, trace := trace fx @ [CloseRaised e]\<rparr>)
      | None \<Rightarrow> (None, fx\<lparr>out_file_state := IsClosed, trace := trace fx @ [FileClosed]\<rparr>))"

text \<open>
  What the file on the disk holds, as far as the effects tell. After a close that
  returned, with no write that raised, it holds what the file has taken. After a close
  that raised it holds what the world left of it. After a write that raised, what
  reached the disk is not known, and neither is it while the file is open.
\<close>

definition file_on_disk :: "world \<Rightarrow> effects \<Rightarrow> string list option" where
  "file_on_disk w fx =
     (case out_file_state fx of
        IsClosed \<Rightarrow> if write_raised fx then None else Some (out_file fx)
      | CloseFailed \<Rightarrow> Some (left_on_disk w)
      | IsOpen \<Rightarrow> None
      | NotOpened \<Rightarrow> None)"

subsection \<open>Strings\<close>

definition newline :: string where
  "newline = [CHR 0x0A]"

text \<open>\<^verbatim>\<open>str(n)\<close> for an integer.\<close>

fun str_nat :: "nat \<Rightarrow> string" where
  "str_nat n =
     (if n < 10 then [char_of (48 + n)] else str_nat (n div 10) @ [char_of (48 + n mod 10)])"

declare str_nat.simps [simp del]

definition str_int :: "int \<Rightarrow> string" where
  "str_int i = (if i < 0 then CHR ''-'' # str_nat (nat (- i)) else str_nat (nat i))"

text \<open>\<^verbatim>\<open>sub in s\<close> on strings: \<open>sub\<close> occurs in \<open>s\<close> as a substring.\<close>

fun starts_with :: "string \<Rightarrow> string \<Rightarrow> bool" where
  "starts_with [] s = True"
| "starts_with (p # ps) [] = False"
| "starts_with (p # ps) (c # cs) = (p = c \<and> starts_with ps cs)"

fun str_in :: "string \<Rightarrow> string \<Rightarrow> bool" where
  "str_in sub [] = (sub = [])"
| "str_in sub (c # cs) = (starts_with sub (c # cs) \<or> str_in sub cs)"

text \<open>
  \<^verbatim>\<open>text[start:end]\<close> for indices that are not negative: the characters at the
  positions from \<open>start\<close> up to, not including, \<open>end\<close>, as far as the text has them.
\<close>

definition slice :: "string \<Rightarrow> nat \<Rightarrow> nat \<Rightarrow> string" where
  "slice text start end = take (end - start) (drop start text)"

subsection \<open>\<^verbatim>\<open>write_with_line_breaks\<close> (lines 64 to 93)\<close>

text \<open>
  The function is local to \<^verbatim>\<open>scrape_articles\<close>, whose one call passes the width
  80: the width and the positions are natural numbers.

  The inner loop of lines 86 and 87,
  \<^verbatim>\<open>while end > start and text[end] != ' ': end -= 1\<close>.
  It is entered with \<open>end < len(text)\<close> only, so the read is in range.
\<close>

function scan_back :: "string \<Rightarrow> nat \<Rightarrow> nat \<Rightarrow> nat" where
  "scan_back text start end =
     (if end > start \<and> text ! end \<noteq> CHR '' '' then scan_back text start (end - 1) else end)"
  by pat_completeness auto
termination
  by (relation "measure (\<lambda>(text, start, end). end - start)") auto

declare scan_back.simps [simp del]

text \<open>Lines 84 to 91: where the line that starts at \<open>start\<close> ends.\<close>

definition line_end :: "string \<Rightarrow> nat \<Rightarrow> nat \<Rightarrow> nat" where
  "line_end text max_line_length start =
     (let end = start + max_line_length in
      if end < length text then
        (let end = scan_back text start end in
         if end = start then start + max_line_length else end)
      else length text)"

lemma scan_back_ge: "s \<le> e \<Longrightarrow> s \<le> scan_back t s e"
  by (induction t s e rule: scan_back.induct) (subst scan_back.simps, auto)

lemma scan_back_le: "scan_back t s e \<le> e"
  by (induction t s e rule: scan_back.induct) (subst scan_back.simps, auto)

lemma line_end_ge: "s \<le> length t \<Longrightarrow> s \<le> line_end t m s"
  using scan_back_ge [of s "s + m" t] by (simp add: line_end_def Let_def)

text \<open>The outer loop of lines 83 to 93, from the position \<open>start\<close> on.\<close>

function write_lines :: "world \<Rightarrow> string \<Rightarrow> nat \<Rightarrow> nat \<Rightarrow> effects \<Rightarrow> exn option \<times> effects" where
  "write_lines w text max_line_length start fx =
     (if start < length text then
        (let end = line_end text max_line_length start in
         case file_write w (slice text start end @ newline) fx of
           (Some e, fx') \<Rightarrow> (Some e, fx')
         | (None, fx') \<Rightarrow> write_lines w text max_line_length (end + 1) fx')
      else (None, fx))"
  by pat_completeness auto
termination
proof (relation "measure (\<lambda>(w, text, max_line_length, start, fx). length text - start)")
  show "wf (measure (\<lambda>(w, text, max_line_length, start, fx). length text - start))"
    by simp
next
  fix w :: world and t :: string and m s :: nat and fx :: effects and e :: nat
    and r :: "exn option \<times> effects" and x :: "exn option" and fx' :: effects
  assume "s < length t" and "e = line_end t m s"
  then show "((w, t, m, e + 1, fx'), (w, t, m, s, fx))
      \<in> measure (\<lambda>(w, text, max_line_length, start, fx). length text - start)"
    using line_end_ge [of s t m] by simp
qed

declare write_lines.simps [simp del]

definition write_with_line_breaks :: "string \<Rightarrow> nat \<Rightarrow> world \<Rightarrow> effects \<Rightarrow> exn option \<times> effects" where
  "write_with_line_breaks text max_line_length w fx = write_lines w text max_line_length 0 fx"

subsection \<open>\<^verbatim>\<open>scrape_articles\<close> (lines 37 to 139)\<close>

record args =
  url :: string
  depth :: int
  search_string :: string
  output_file :: string
  run_time :: real

type_synonym queue = "(string \<times> int) list"

text \<open>
  Lines 117 to 120, the loop over the \<^verbatim>\<open>a\<close> elements of the page, with
  \<open>links\<close> the elements still to come: an element whose \<^verbatim>\<open>href\<close> is missing or
  empty is passed over, every other one is joined to \<^verbatim>\<open>url\<close>, the parameter of
  \<^verbatim>\<open>scrape_articles\<close>, and appended to \<^verbatim>\<open>urls_to_visit\<close>. When
  \<^verbatim>\<open>urljoin\<close> raises, the loop is left with the queue as it is by then.
\<close>

fun enqueue_links ::
  "world \<Rightarrow> args \<Rightarrow> int \<Rightarrow> string option list \<Rightarrow> queue \<Rightarrow> exn option \<times> queue" where
  "enqueue_links w a current_depth [] urls_to_visit = (None, urls_to_visit)"
| "enqueue_links w a current_depth (None # links) urls_to_visit =
     enqueue_links w a current_depth links urls_to_visit"
| "enqueue_links w a current_depth (Some href # links) urls_to_visit =
     (if href \<noteq> []
      then (case urljoin w (url a) href of
              Inl e \<Rightarrow> (Some e, urls_to_visit)
            | Inr joined \<Rightarrow>
                enqueue_links w a current_depth links
                  (urls_to_visit @ [(joined, current_depth + 1)]))
      else enqueue_links w a current_depth links urls_to_visit)"

text \<open>Line 123.\<close>

definition title_of :: "page \<Rightarrow> string" where
  "title_of soup = (case page_title soup of Some t \<Rightarrow> t | None \<Rightarrow> ''No title found'')"

text \<open>Lines 123 to 126, for a page that matches: the title is printed, the text written.\<close>

definition report_match :: "world \<Rightarrow> page \<Rightarrow> effects \<Rightarrow> exn option \<times> effects" where
  "report_match w soup fx =
     (case py_print w (''Found article: '' @ title_of soup) fx of
        (Some e, fx1) \<Rightarrow> (Some e, fx1)
      | (None, fx1) \<Rightarrow> write_with_line_breaks (page_text soup) 80 w fx1)"

text \<open>
  Lines 128 to 131: the clock is read; when the time is over the timeout line is printed
  and the loop is to be left (\<open>Inr True\<close>).
\<close>

definition check_deadline ::
  "world \<Rightarrow> args \<Rightarrow> real \<Rightarrow> effects \<Rightarrow> (exn + bool) \<times> effects" where
  "check_deadline w a start_time fx =
     (case read_clock w fx of
        (now, fx1) \<Rightarrow>
          (let elapsed_time = now - start_time
           in if elapsed_time > run_time a
              then (case py_print w ''Scrape has timed out'' fx1 of
                      (Some e, fx2) \<Rightarrow> (Inl e, fx2)
                    | (None, fx2) \<Rightarrow> (Inr True, fx2))
              else (Inr False, fx1)))"

text \<open>
  Lines 114 to 131, the body of the inner \<^verbatim>\<open>try\<close> for one entry. It ends in an
  exception (\<open>Inl\<close>), in \<^verbatim>\<open>break\<close> (\<open>Inr True\<close>) or at its last line
  (\<open>Inr False\<close>), and gives the queue and the effects as it leaves them.
\<close>

definition process_page ::
  "world \<Rightarrow> args \<Rightarrow> real \<Rightarrow> string \<Rightarrow> int \<Rightarrow> queue \<Rightarrow> effects \<Rightarrow> (exn + bool) \<times> queue \<times> effects" where
  "process_page w a start_time current_url current_depth urls_to_visit fx =
     (case get_soup w current_url current_depth fx of
        (Inl e, fx1) \<Rightarrow> (Inl e, urls_to_visit, fx1)
      | (Inr soup, fx1) \<Rightarrow>
          (case enqueue_links w a current_depth (a_hrefs soup) urls_to_visit of
             (Some e, q) \<Rightarrow> (Inl e, q, fx1)
           | (None, q) \<Rightarrow>
               (case (if str_in (str_lower w (search_string a)) (str_lower w (page_text soup))
                      then report_match w soup fx1
                      else (None, fx1)) of
                  (Some e, fx2) \<Rightarrow> (Inl e, q, fx2)
                | (None, fx2) \<Rightarrow>
                    (case check_deadline w a start_time fx2 of
                       (r, fx3) \<Rightarrow> (r, q, fx3)))))"

text \<open>
  The entries a page adds go to the back of the queue, one level below the page. This
  is what makes the traversal end: an entry within the depth is replaced by entries
  closer to the cutoff, an entry beyond it is dropped.
\<close>

definition weight :: "args \<Rightarrow> string \<times> int \<Rightarrow> nat" where
  "weight a e = nat (depth a + 1 - snd e)"

lemma enqueue_links_append:
  "enqueue_links w a d links q = (r, q') \<Longrightarrow>
     \<exists>new. q' = q @ new \<and> (\<forall>e \<in> set new. snd e = d + 1)"
proof (induction links arbitrary: q)
  case Nil
  then show ?case by simp
next
  case (Cons h links)
  show ?case
  proof (cases h)
    case None
    then show ?thesis using Cons.IH [of q] Cons.prems by simp
  next
    case (Some href)
    show ?thesis
    proof (cases "href = []")
      case True
      then show ?thesis using Some Cons.IH [of q] Cons.prems by simp
    next
      case False
      show ?thesis
      proof (cases "urljoin w (url a) href")
        case (Inl e)
        then have "q' = q" using Some False Cons.prems by simp
        then show ?thesis by simp
      next
        case (Inr joined)
        then have "enqueue_links w a d links (q @ [(joined, d + 1)]) = (r, q')"
          using Some False Cons.prems by simp
        then obtain new where "q' = (q @ [(joined, d + 1)]) @ new"
          and "\<forall>e \<in> set new. snd e = d + 1"
          using Cons.IH [of "q @ [(joined, d + 1)]"] by blast
        then have "q' = q @ ((joined, d + 1) # new)
            \<and> (\<forall>e \<in> set ((joined, d + 1) # new). snd e = d + 1)"
          by simp
        then show ?thesis by blast
      qed
    qed
  qed
qed

lemma process_page_queue:
  assumes "process_page w a st u d q fx = (r, q', fx')"
  shows "\<exists>new. q' = q @ new \<and> (\<forall>e \<in> set new. snd e = d + 1)"
proof (cases "requests_get w (length (requests fx)) u")
  case (Inl e)
  then have "q' = q" using assms by (simp add: process_page_def get_soup_def)
  then show ?thesis by simp
next
  case (Inr soup)
  obtain r1 q1 where el: "enqueue_links w a d (a_hrefs soup) q = (r1, q1)"
    by (cases "enqueue_links w a d (a_hrefs soup) q") auto
  have "q' = q1"
    using assms Inr el
    by (cases r1) (auto simp: process_page_def get_soup_def split: prod.splits option.splits)
  then show ?thesis using enqueue_links_append [OF el] by simp
qed

lemma queue_step_decreases:
  assumes "\<forall>e \<in> set new. weight a e < weight a x"
  shows "(mset (map (weight a) (rest @ new)), mset (map (weight a) (x # rest))) \<in> mult less_than"
proof -
  have "\<forall>k \<in> set_mset (mset (map (weight a) new)). \<exists>j \<in> set_mset {#weight a x#}. (k, j) \<in> less_than"
    using assms by auto
  then have "(mset (map (weight a) rest) + mset (map (weight a) new),
              mset (map (weight a) rest) + {#weight a x#}) \<in> mult less_than"
    by (intro one_step_implies_mult) simp_all
  then show ?thesis by simp
qed

lemma process_page_decreases:
  assumes "\<not> (u \<in> vis \<or> depth a < d)" and "(x, y) = process_page w a st u d rest fx"
    and "(q, fx') = y"
  shows "(mset (map (weight a) q), mset (map (weight a) ((u, d) # rest))) \<in> mult less_than"
proof -
  have "process_page w a st u d rest fx = (x, q, fx')"
    using assms(2,3) by simp
  then obtain new where new: "q = rest @ new" "\<forall>e \<in> set new. snd e = d + 1"
    using process_page_queue by blast
  have "\<forall>e \<in> set new. weight a e < weight a (u, d)"
    using new(2) assms(1) by (auto simp: weight_def)
  then show ?thesis
    using queue_step_decreases [of new a "(u, d)" rest] new(1) by simp
qed

text \<open>
  The loop of lines 105 to 134, on the local variables \<^verbatim>\<open>visited_urls\<close> and
  \<^verbatim>\<open>urls_to_visit\<close>. The handler of line 133 catches every exception of the
  inner \<^verbatim>\<open>try\<close> and prints it; an exception that this \<^verbatim>\<open>print\<close> raises
  leaves the loop. It returns that exception, if any, and the two variables and the
  effects as they are when the loop is left.
\<close>

function crawl ::
  "world \<Rightarrow> args \<Rightarrow> real \<Rightarrow> string set \<Rightarrow> queue \<Rightarrow> effects
     \<Rightarrow> exn option \<times> string set \<times> queue \<times> effects" where
  "crawl w a start_time visited_urls [] fx = (None, visited_urls, [], fx)"
| "crawl w a start_time visited_urls ((current_url, current_depth) # urls_to_visit) fx =
     (if current_url \<in> visited_urls \<or> current_depth > depth a
      then crawl w a start_time visited_urls urls_to_visit fx
      else
        case process_page w a start_time current_url current_depth urls_to_visit fx of
          (Inl e, q, fx') \<Rightarrow>
            (case py_print w (''Error processing URL '' @ current_url @ '': '' @ str_exn e) fx' of
               (Some e', fx'') \<Rightarrow> (Some e', insert current_url visited_urls, q, fx'')
             | (None, fx'') \<Rightarrow> crawl w a start_time (insert current_url visited_urls) q fx'')
        | (Inr True, q, fx') \<Rightarrow> (None, insert current_url visited_urls, q, fx')
        | (Inr False, q, fx') \<Rightarrow> crawl w a start_time (insert current_url visited_urls) q fx')"
  by pat_completeness auto
termination
proof (relation "inv_image (mult less_than) (\<lambda>(w, a, st, vis, q, fx). mset (map (weight a) q))",
    goal_cases)
  case 1
  show ?case by (simp add: wf_mult)
next
  case (2 w a st vis u d rest fx)
  show ?case using queue_step_decreases [of "[]" a "(u, d)" rest] by simp
next
  case (3 w a st vis u d rest fx x y e q fx' r fx'')
  then show ?case using process_page_decreases [of u vis a d x y w st rest fx q fx'] by (cases y) auto
next
  case (4 w a st vis u d rest fx x y b q fx')
  then show ?case using process_page_decreases [of u vis a d x y w st rest fx q fx'] by (cases y) auto
qed

declare crawl.simps [simp del]

text \<open>Lines 101 to 103: the three lines at the head of the file.\<close>

definition header_lines :: "args \<Rightarrow> string list" where
  "header_lines a =
     [''Search Term: '' @ search_string a @ newline,
      ''URL: '' @ url a @ newline,
      ''Search Depth: '' @ str_int (depth a) @ newline]"

text \<open>Calls of \<^verbatim>\<open>out_file.write\<close> one after the other: the first that raises ends them.\<close>

fun write_all :: "world \<Rightarrow> string list \<Rightarrow> effects \<Rightarrow> exn option \<times> effects" where
  "write_all w [] fx = (None, fx)"
| "write_all w (s # ss) fx =
     (case file_write w s fx of
        (Some e, fx') \<Rightarrow> (Some e, fx')
      | (None, fx') \<Rightarrow> write_all w ss fx')"

text \<open>
  Lines 101 to 134, the body of the \<^verbatim>\<open>with\<close> block: the three header lines are
  written, the loop runs on \<^verbatim>\<open>visited_urls = set()\<close> and
  \<^verbatim>\<open>urls_to_visit = [(url, 0)]\<close>.
\<close>

definition with_body :: "world \<Rightarrow> args \<Rightarrow> real \<Rightarrow> effects \<Rightarrow> exn option \<times> effects" where
  "with_body w a start_time fx =
     (case write_all w (header_lines a) fx of
        (Some e, fx1) \<Rightarrow> (Some e, fx1)
      | (None, fx1) \<Rightarrow>
          (case crawl w a start_time {} [(url a, 0)] fx1 of
             (r, visited_urls, urls_to_visit, fx2) \<Rightarrow> (r, fx2)))"

text \<open>
  Lines 100 to 134, the body of the outer \<^verbatim>\<open>try\<close>: the file is opened, the
  block runs, and the file is closed however the block is left. An exception of the
  close takes the place of one that left the block. What it returns is the exception
  that leaves the \<^verbatim>\<open>with\<close> statement, if any.
\<close>

definition scrape_body :: "world \<Rightarrow> args \<Rightarrow> real \<Rightarrow> effects \<Rightarrow> exn option \<times> effects" where
  "scrape_body w a start_time fx =
     (case open_w w (output_file a) fx of
        (Some e, fx0) \<Rightarrow> (Some e, fx0)
      | (None, fx0) \<Rightarrow>
          (case with_body w a start_time fx0 of
             (r, fx1) \<Rightarrow>
               (case close_file w fx1 of
                  (Some e, fx2) \<Rightarrow> (Some e, fx2)
                | (None, fx2) \<Rightarrow> (r, fx2))))"

text \<open>Lines 136 to 139: what the two handlers of the outer \<^verbatim>\<open>try\<close> print.\<close>

fun handler_line :: "args \<Rightarrow> exn \<Rightarrow> string" where
  "handler_line a (IOError m) =
     ''Error opening or writing to output file '' @ output_file a @ '': '' @ m"
| "handler_line a (OtherException m) = ''Unexpected error: '' @ m"

text \<open>
  The whole function, lines 95 to 139. An exception that leaves the outer \<^verbatim>\<open>try\<close>
  is printed by its handler; an exception that this \<^verbatim>\<open>print\<close> raises leaves the
  function. The result is the exception that leaves the function, if any, and the
  effects.
\<close>

definition scrape_articles :: "world \<Rightarrow> args \<Rightarrow> effects \<Rightarrow> exn option \<times> effects" where
  "scrape_articles w a fx =
     (case read_clock w fx of
        (start_time, fx0) \<Rightarrow>
          (case scrape_body w a start_time fx0 of
             (Some e, fx') \<Rightarrow> py_print w (handler_line a e) fx'
           | (None, fx') \<Rightarrow> (None, fx')))"

subsection \<open>The command line (lines 143 to 158)\<close>



subsection \<open>Notions for the properties\<close>

text \<open>The events that are calls of \<^verbatim>\<open>out_file.write\<close>.\<close>

fun is_write :: "event \<Rightarrow> bool" where
  "is_write (Written s) = True"
| "is_write (WriteRaised e) = True"
| "is_write _ = False"

text \<open>
  The order of a breadth-first traversal: the depths of the requests made so far,
  followed by the depths of the entries in the queue, never decrease, and no two
  entries of the queue are more than one level apart.
\<close>

definition level_order :: "queue \<Rightarrow> effects \<Rightarrow> bool" where
  "level_order q fx \<longleftrightarrow>
     sorted (map snd (requests fx) @ map snd q)
     \<and> (\<forall>e \<in> set q. \<forall>e' \<in> set q. snd e \<le> snd e' + 1)"

section \<open>Worlds and inputs of the examples\<close>

text \<open>\<^verbatim>\<open>str.lower\<close> on texts whose letters are the letters A to Z.\<close>

definition ascii_lower_char :: "char \<Rightarrow> char" where
  "ascii_lower_char c =
     (let n = (of_char c :: nat) in if 65 \<le> n \<and> n \<le> 90 then char_of (n + 32) else c)"

definition ascii_lower :: "string \<Rightarrow> string" where
  "ascii_lower s = map ascii_lower_char s"

text \<open>
  \<^verbatim>\<open>urljoin\<close> on the calls of the examples: a reference that starts with a scheme
  stands for itself, any other one is appended to a base that ends in a slash.
\<close>

definition join_plain :: "string \<Rightarrow> string \<Rightarrow> exn + string" where
  "join_plain base href = Inr (if starts_with ''http://'' href then href else base @ href)"

text \<open>A page that does not mention the search term, and one that does.\<close>

definition links_only :: "string option list \<Rightarrow> page" where
  "links_only hrefs = \<lparr>a_hrefs = hrefs, page_text = ''nothing here'', page_title = None\<rparr>"

definition news_page :: "string option list \<Rightarrow> page" where
  "news_page hrefs = \<lparr>a_hrefs = hrefs, page_text = ''Good NEWS'', page_title = None\<rparr>"

text \<open>
  A world in which no host answers; the file opens, takes every write and closes, the
  terminal takes every line, and the clock stands still.
\<close>

definition offline :: world where
  "offline =
     \<lparr>requests_get = (\<lambda>n u. Inl (OtherException ''no route to host'')),
      urljoin = join_plain,
      str_lower = ascii_lower,
      time_time = (\<lambda>n. 0),
      open_error = (\<lambda>f. None),
      write_error = (\<lambda>n. None),
      close_error = None,
      left_on_disk = [],
      print_error = (\<lambda>n. None),
      shutdown_flush_fails = False,
      parse_int = (\<lambda>s. None),
      parse_float = (\<lambda>s. None)\<rparr>"

text \<open>A text of 82 characters with no space in it: eighty \<open>a\<close>, then \<open>bc\<close>.\<close>

definition unbroken :: string where
  "unbroken = replicate 80 CHR ''a'' @ ''bc''"

text \<open>
  A text of 101 characters whose only whitespace is a tab, at position 40: forty
  \<open>a\<close>, the tab, sixty \<open>b\<close>.
\<close>

definition tabbed :: string where
  "tabbed = replicate 40 CHR ''a'' @ [CHR 0x09] @ replicate 60 CHR ''b''"

text \<open>
  A site of four pages: the start page links to \<open>a\<close> and \<open>b\<close>, and \<open>a\<close> links to
  \<open>c\<close>. File and terminal work, the clock stands still.
\<close>

definition site :: world where
  "site =
     \<lparr>requests_get = (\<lambda>n u.
        if u = ''http://h/'' then Inr (links_only [Some ''http://h/a/'', Some ''http://h/b/''])
        else if u = ''http://h/a/'' then Inr (links_only [Some ''http://h/c/''])
        else if u = ''http://h/b/'' then Inr (links_only [])
        else if u = ''http://h/c/'' then Inr (links_only [])
        else Inl (OtherException ''no route to host'')),
      urljoin = join_plain,
      str_lower = ascii_lower,
      time_time = (\<lambda>n. 0),
      open_error = (\<lambda>f. None),
      write_error = (\<lambda>n. None),
      close_error = None,
      left_on_disk = [],
      print_error = (\<lambda>n. None),
      shutdown_flush_fails = False,
      parse_int = (\<lambda>s. None),
      parse_float = (\<lambda>s. None)\<rparr>"

definition site_args :: args where
  "site_args = \<lparr>url = ''http://h/'', depth = 2, search_string = ''news'',
                 output_file = ''out.txt'', run_time = 300\<rparr>"

text \<open>The same arguments with a negative depth.\<close>

definition below_zero :: args where
  "below_zero = site_args\<lparr>depth := - 1\<rparr>"


text \<open>The site, with a clock that shows 1000 seconds at every reading.\<close>

definition late :: world where
  "late = site\<lparr>time_time := (\<lambda>n. 1000)\<rparr>"

text \<open>
  A start page that matches the search term and links to \<open>a\<close>. The file takes the
  three header lines, and every later write raises; the clock shows 0 when the session
  starts and 1000 seconds at every later reading.
\<close>

definition full_disk :: world where
  "full_disk =
     \<lparr>requests_get = (\<lambda>n u.
        if u = ''http://h/'' then Inr (news_page [Some ''http://h/a/''])
        else Inr (links_only [])),
      urljoin = join_plain,
      str_lower = ascii_lower,
      time_time = (\<lambda>n. if n = 0 then 0 else 1000),
      open_error = (\<lambda>f. None),
      write_error = (\<lambda>n. if n < 3 then None else Some (IOError ''No space left on device'')),
      close_error = None,
      left_on_disk = [],
      print_error = (\<lambda>n. None),
      shutdown_flush_fails = False,
      parse_int = (\<lambda>s. None),
      parse_float = (\<lambda>s. None)\<rparr>"


text \<open>
  The site on a device without space: the file opens and every write is taken into
  the buffer; the close cannot bring the buffer to the disk, raises, and leaves the
  file empty.
\<close>

definition dev_full :: world where
  "dev_full = site\<lparr>close_error := Some (IOError ''No space left on device''),
                   left_on_disk := []\<rparr>"





text \<open>
  A start page with the relative link \<open>a/\<close>, and under it the page
  \<open>http://h/a/\<close> with the relative link \<open>b\<close>.
\<close>

definition nested :: world where
  "nested =
     \<lparr>requests_get = (\<lambda>n u.
        if u = ''http://h/'' then Inr (links_only [Some ''a/''])
        else if u = ''http://h/a/'' then Inr (links_only [Some ''b''])
        else Inr (links_only [])),
      urljoin = join_plain,
      str_lower = ascii_lower,
      time_time = (\<lambda>n. 0),
      open_error = (\<lambda>f. None),
      write_error = (\<lambda>n. None),
      close_error = None,
      left_on_disk = [],
      print_error = (\<lambda>n. None),
      shutdown_flush_fails = False,
      parse_int = (\<lambda>s. None),
      parse_float = (\<lambda>s. None)\<rparr>"

section \<open>The line wrapper\<close>

lemma scan_back_spec:
  "s \<le> e \<Longrightarrow>
     s \<le> scan_back t s e \<and> scan_back t s e \<le> e
     \<and> (\<forall>j. scan_back t s e < j \<and> j \<le> e \<longrightarrow> t ! j \<noteq> CHR '' '')
     \<and> (s < scan_back t s e \<longrightarrow> t ! scan_back t s e = CHR '' '')"
proof (induction t s e rule: scan_back.induct)
  case (1 t s e)
  show ?case
  proof (cases "e > s \<and> t ! e \<noteq> CHR '' ''")
    case True
    then have eq: "scan_back t s e = scan_back t s (e - 1)"
      by (subst scan_back.simps) simp
    have ih: "s \<le> scan_back t s (e - 1) \<and> scan_back t s (e - 1) \<le> e - 1
     \<and> (\<forall>j. scan_back t s (e - 1) < j \<and> j \<le> e - 1 \<longrightarrow> t ! j \<noteq> CHR '' '')
     \<and> (s < scan_back t s (e - 1) \<longrightarrow> t ! scan_back t s (e - 1) = CHR '' '')"
      using "1.IH" True by auto
    have "\<forall>j. scan_back t s (e - 1) < j \<and> j \<le> e \<longrightarrow> t ! j \<noteq> CHR '' ''"
    proof (intro allI impI)
      fix j assume j: "scan_back t s (e - 1) < j \<and> j \<le> e"
      show "t ! j \<noteq> CHR '' ''"
      proof (cases "j = e")
        case True
        then show ?thesis using \<open>e > s \<and> t ! e \<noteq> CHR '' ''\<close> by simp
      next
        case False
        then have "j \<le> e - 1" using j by arith
        then show ?thesis using ih j by blast
      qed
    qed
    then show ?thesis using ih eq by auto
  next
    case False
    then have eq: "scan_back t s e = e"
      by (subst scan_back.simps) auto
    show ?thesis using False "1.prems" by (auto simp: eq)
  qed
qed

text \<open>
  C9, as the code has it. For a text that is not empty and no longer than the width,
  \<^verbatim>\<open>write_with_line_breaks\<close> makes exactly one call of \<^verbatim>\<open>file.write\<close>, with the
  text followed by one newline, and nothing else. For the empty text it writes nothing
  at all: the loop of line 83 is not entered.
\<close>

theorem short_text_one_line:
  assumes "length t \<le> m"
  shows "write_with_line_breaks t m w fx
           = (if t = [] then (None, fx) else file_write w (t @ newline) fx)"
proof (cases "t = []")
  case True
  then show ?thesis by (simp add: write_with_line_breaks_def write_lines.simps)
next
  case False
  have e: "line_end t m 0 = length t" using assms by (simp add: line_end_def)
  have "write_lines w t m 0 fx = file_write w (t @ newline) fx"
    using False
    by (subst write_lines.simps)
      (auto simp: e slice_def write_lines.simps split: prod.splits option.splits)
  then show ?thesis using False by (simp add: write_with_line_breaks_def)
qed

text \<open>The three characters \<open>abc\<close> at width 80, on a file that takes every write.\<close>

theorem short_text_one_line_witness:
  "length ''abc'' \<le> 80
   \<and> write_with_line_breaks ''abc'' 80 offline no_effects
       = (None, no_effects\<lparr>out_file := [''abc'' @ newline], write_calls := 1,
                          trace := [Written (''abc'' @ newline)]\<rparr>)"
  using short_text_one_line [of "''abc''" 80 offline no_effects]
  by (simp add: file_write_def offline_def no_effects_def)

text \<open>
  C9 as the spec states it includes the empty text, for which it promises one line
  that holds a newline only. The code writes nothing for it.
\<close>

theorem empty_text_writes_nothing:
  "out_file (snd (write_with_line_breaks [] 80 offline no_effects)) \<noteq> [[] @ newline]"
  by code_simp

text \<open>
  Where the code ends a line whose tentative end \<open>start + max_line_length\<close> lies
  strictly inside the text: at the last space character among the positions after
  \<open>start\<close> up to and including the tentative end, and at the tentative end when none
  of these positions holds a space. The line written is the text from \<open>start\<close> to
  that end, and the loop goes on one position after it.
\<close>

lemma line_end_at_nearest_space:
  assumes "s + m < length t"
  shows "((\<exists>i. s < i \<and> i \<le> s + m \<and> t ! i = CHR '' '') \<longrightarrow>
            s < line_end t m s \<and> line_end t m s \<le> s + m \<and> t ! line_end t m s = CHR '' ''
            \<and> (\<forall>j. line_end t m s < j \<and> j \<le> s + m \<longrightarrow> t ! j \<noteq> CHR '' ''))
       \<and> ((\<forall>i. s < i \<and> i \<le> s + m \<longrightarrow> t ! i \<noteq> CHR '' '') \<longrightarrow> line_end t m s = s + m)
       \<and> write_lines w t m s fx
           = (case file_write w (slice t s (line_end t m s) @ newline) fx of
                (Some e, fx') \<Rightarrow> (Some e, fx')
              | (None, fx') \<Rightarrow> write_lines w t m (line_end t m s + 1) fx')"
proof -
  let ?r = "scan_back t s (s + m)"
  have r: "s \<le> ?r \<and> ?r \<le> s + m
     \<and> (\<forall>j. ?r < j \<and> j \<le> s + m \<longrightarrow> t ! j \<noteq> CHR '' '')
     \<and> (s < ?r \<longrightarrow> t ! ?r = CHR '' '')"
    using scan_back_spec [of s "s + m" t] by simp
  have le: "line_end t m s = (if ?r = s then s + m else ?r)"
    using assms by (simp add: line_end_def Let_def)
  have step: "write_lines w t m s fx
           = (case file_write w (slice t s (line_end t m s) @ newline) fx of
                (Some e, fx') \<Rightarrow> (Some e, fx')
              | (None, fx') \<Rightarrow> write_lines w t m (line_end t m s + 1) fx')"
    using assms by (subst write_lines.simps) (simp add: Let_def)
  show ?thesis
  proof (cases "?r = s")
    case True
    then have "\<forall>i. s < i \<and> i \<le> s + m \<longrightarrow> t ! i \<noteq> CHR '' ''" using r by simp
    then show ?thesis using le True step by auto
  next
    case False
    then have "s < ?r" using r by simp
    then show ?thesis using le False r step by auto
  qed
qed

text \<open>
  C8, at an input on which the code departs from it. The wrapper is to break a line
  at the nearest whitespace before the tentative end, and the docstring of
  \<^verbatim>\<open>write_with_line_breaks\<close> says so. In \<open>tabbed\<close> the tentative end 80 of the
  first line lies inside the text and a tab stands at position 40, before it. Line 86
  compares with the space character only: the code does not end the line at the tab
  but makes a hard cut at 80, and writes the tab inside the first line.
\<close>

theorem tab_is_no_break_point:
  "0 + 80 < length tabbed \<and> tabbed ! 40 = CHR 0x09 \<and> line_end tabbed 80 0 \<noteq> 40
   \<and> line_end tabbed 80 0 = 80
   \<and> out_file (snd (write_with_line_breaks tabbed 80 offline no_effects))
       = [replicate 40 CHR ''a'' @ [CHR 0x09] @ replicate 39 CHR ''b'' @ newline,
          replicate 20 CHR ''b'' @ newline]"
  by code_simp

text \<open>
  C2, at an input on which the code departs from it. \<open>unbroken\<close> has 82 characters
  and no whitespace, so two hard-cut lines are due, the eighty \<open>a\<close> and then \<open>bc\<close>.
  The code writes the eighty \<open>a\<close> and then \<open>c\<close>: after the forced cut at 80 the loop
  goes on at 81, and the character at position 80 is written nowhere.
\<close>

theorem hard_cut_drops_a_character:
  "out_file (snd (write_with_line_breaks unbroken 80 offline no_effects))
     = [replicate 80 CHR ''a'' @ newline, ''c'' @ newline]
   \<and> concat (map butlast (out_file (snd (write_with_line_breaks unbroken 80 offline no_effects))))
       \<noteq> unbroken"
  by code_simp

section \<open>The traversal\<close>

text \<open>
  What the calls inside the loop leave alone: writing to the file and printing make no
  request and do not read the clock.
\<close>

lemma file_write_frame:
  assumes "file_write w s fx = (r, fx')"
  shows "requests fx' = requests fx \<and> console fx' = console fx
     \<and> clock_reads fx' = clock_reads fx
     \<and> (\<exists>ev. trace fx' = trace fx @ [ev] \<and> is_write ev)"
  using assms by (auto simp: file_write_def split: option.splits)

lemma write_lines_frame:
  "write_lines w t m s fx = (r, fx') \<Longrightarrow>
     requests fx' = requests fx \<and> console fx' = console fx
     \<and> clock_reads fx' = clock_reads fx
     \<and> (\<exists>evs. trace fx' = trace fx @ evs \<and> (\<forall>ev \<in> set evs. is_write ev))"
proof (induction w t m s fx arbitrary: r fx' rule: write_lines.induct)
  case (1 w t m s fx)
  show ?case
  proof (cases "s < length t")
    case False
    then have "fx' = fx" using "1.prems" by (simp add: write_lines.simps)
    then show ?thesis by simp
  next
    case True
    obtain r1 fx1 where fw: "file_write w (slice t s (line_end t m s) @ newline) fx = (r1, fx1)"
      by (cases "file_write w (slice t s (line_end t m s) @ newline) fx") auto
    note f1 = file_write_frame [OF fw]
    show ?thesis
    proof (cases r1)
      case (Some e)
      then have "fx' = fx1" using "1.prems" True fw by (simp add: write_lines.simps [of w t m s])
      then show ?thesis using f1 by auto
    next
      case None
      then have rec: "write_lines w t m (line_end t m s + 1) fx1 = (r, fx')"
        using "1.prems" True fw by (simp add: write_lines.simps [of w t m s])
      have ih: "requests fx' = requests fx1 \<and> console fx' = console fx1
         \<and> clock_reads fx' = clock_reads fx1
         \<and> (\<exists>evs. trace fx' = trace fx1 @ evs \<and> (\<forall>ev \<in> set evs. is_write ev))"
        using "1.IH" [OF True refl fw [symmetric] _ rec] None by simp
      then obtain evs where evs: "trace fx' = trace fx1 @ evs" "\<forall>ev \<in> set evs. is_write ev"
        by blast
      obtain ev where ev: "trace fx1 = trace fx @ [ev]" "is_write ev" using f1 by blast
      have "trace fx' = trace fx @ (ev # evs) \<and> (\<forall>x \<in> set (ev # evs). is_write x)"
        using evs ev by simp
      then have "\<exists>evs. trace fx' = trace fx @ evs \<and> (\<forall>ev \<in> set evs. is_write ev)"
        by blast
      then show ?thesis using ih f1 by simp
    qed
  qed
qed

lemma py_print_frame:
  assumes "py_print w s fx = (r, fx')"
  shows "requests fx' = requests fx \<and> clock_reads fx' = clock_reads fx
     \<and> r = print_error w (print_calls fx)
     \<and> trace fx' = trace fx @ [case r of None \<Rightarrow> Printed s | Some e \<Rightarrow> PrintRaised e]"
  using assms by (auto simp: py_print_def split: option.splits)

lemma report_match_frame:
  assumes "report_match w soup fx = (r, fx')"
  shows "requests fx' = requests fx \<and> clock_reads fx' = clock_reads fx
     \<and> (\<exists>evs. trace fx' = trace fx @ evs \<and> ClockRead \<notin> set evs)"
proof -
  obtain r1 fx1 where p: "py_print w (''Found article: '' @ title_of soup) fx = (r1, fx1)"
    by (cases "py_print w (''Found article: '' @ title_of soup) fx") auto
  note f1 = py_print_frame [OF p]
  show ?thesis
  proof (cases r1)
    case (Some e)
    then have "fx' = fx1" using assms p by (simp add: report_match_def)
    then show ?thesis using f1 Some by simp
  next
    case None
    then have "write_lines w (page_text soup) 80 0 fx1 = (r, fx')"
      using assms p by (simp add: report_match_def write_with_line_breaks_def)
    then have f2: "requests fx' = requests fx1 \<and> clock_reads fx' = clock_reads fx1
      \<and> (\<exists>evs. trace fx' = trace fx1 @ evs \<and> (\<forall>ev \<in> set evs. is_write ev))"
      using write_lines_frame by blast
    then obtain evs where evs: "trace fx' = trace fx1 @ evs" "\<forall>ev \<in> set evs. is_write ev"
      by blast
    have "ClockRead \<notin> set evs" using evs(2) by auto
    then have "trace fx' = trace fx @ (Printed (''Found article: '' @ title_of soup) # evs)
        \<and> ClockRead \<notin> set (Printed (''Found article: '' @ title_of soup) # evs)"
      using evs(1) f1 None by simp
    then have "\<exists>evs. trace fx' = trace fx @ evs \<and> ClockRead \<notin> set evs" by blast
    then show ?thesis using f1 f2 by simp
  qed
qed

lemma check_deadline_requests:
  assumes "check_deadline w a st fx = (r, fx')"
  shows "requests fx' = requests fx"
  using assms
  by (auto simp: check_deadline_def read_clock_def py_print_def Let_def
      split: if_splits option.splits)

lemma check_deadline_ok:
  assumes "check_deadline w a st fx = (Inr stop, fx')"
  shows "clock_reads fx' = Suc (clock_reads fx)
     \<and> stop = (run_time a < time_time w (clock_reads fx) - st)
     \<and> trace fx' = trace fx @ ClockRead
          # (if stop then [Printed ''Scrape has timed out''] else [])"
  using assms
  by (auto simp: check_deadline_def read_clock_def py_print_def Let_def
      split: if_splits option.splits)

text \<open>
  The body of the inner \<^verbatim>\<open>try\<close> in its parts: the request, the links, the
  match, the deadline.
\<close>

lemma process_page_cases:
  assumes "process_page w a st u d q fx = (r, q', fx')"
  obtains (request_raised) e where "requests_get w (length (requests fx)) u = Inl e"
      and "r = Inl e" and "q' = q" and "fx' = snd (get_soup w u d fx)"
  | (link_raised) soup e where "requests_get w (length (requests fx)) u = Inr soup"
      and "enqueue_links w a d (a_hrefs soup) q = (Some e, q')"
      and "r = Inl e" and "fx' = snd (get_soup w u d fx)"
  | (match_raised) soup e where "requests_get w (length (requests fx)) u = Inr soup"
      and "enqueue_links w a d (a_hrefs soup) q = (None, q')"
      and "str_in (str_lower w (search_string a)) (str_lower w (page_text soup))"
      and "report_match w soup (snd (get_soup w u d fx)) = (Some e, fx')" and "r = Inl e"
  | (checked) soup fx2 where "requests_get w (length (requests fx)) u = Inr soup"
      and "enqueue_links w a d (a_hrefs soup) q = (None, q')"
      and "(if str_in (str_lower w (search_string a)) (str_lower w (page_text soup))
            then report_match w soup (snd (get_soup w u d fx))
            else (None, snd (get_soup w u d fx))) = (None, fx2)"
      and "check_deadline w a st fx2 = (r, fx')"
proof (cases "requests_get w (length (requests fx)) u")
  case (Inl e)
  then show ?thesis using assms request_raised [of e] by (auto simp: process_page_def get_soup_def)
next
  case (Inr soup)
  obtain r1 q1 where el: "enqueue_links w a d (a_hrefs soup) q = (r1, q1)"
    by (cases "enqueue_links w a d (a_hrefs soup) q") auto
  show ?thesis
  proof (cases r1)
    case (Some e)
    then show ?thesis using assms Inr el link_raised [of soup e]
      by (auto simp: process_page_def get_soup_def)
  next
    case None
    let ?fx1 = "snd (get_soup w u d fx)"
    obtain r2 fx2 where m: "(if str_in (str_lower w (search_string a)) (str_lower w (page_text soup))
            then report_match w soup ?fx1 else (None, ?fx1)) = (r2, fx2)"
      by (cases "(if str_in (str_lower w (search_string a)) (str_lower w (page_text soup))
            then report_match w soup ?fx1 else (None, ?fx1))") auto
    have pp: "process_page w a st u d q fx
        = (case (r2, fx2) of
             (Some e, fx2) \<Rightarrow> (Inl e, q1, fx2)
           | (None, fx2) \<Rightarrow> (case check_deadline w a st fx2 of (r, fx3) \<Rightarrow> (r, q1, fx3)))"
      using Inr el None m by (auto simp: process_page_def get_soup_def split: if_splits)
    show ?thesis
    proof (cases r2)
      case (Some e)
      then have "r = Inl e" "q' = q1" "fx' = fx2" using assms pp by auto
      moreover have "str_in (str_lower w (search_string a)) (str_lower w (page_text soup))"
        using m Some by (auto split: if_splits)
      ultimately show ?thesis using match_raised [of soup e] Inr el None m Some by auto
    next
      case n2: None
      obtain r3 fx3 where cd: "check_deadline w a st fx2 = (r3, fx3)"
        by (cases "check_deadline w a st fx2") auto
      then have "r = r3" "q' = q1" "fx' = fx3" using assms pp n2 by auto
      then show ?thesis using checked [of soup fx2] Inr el None m n2 cd by auto
    qed
  qed
qed

lemma get_soup_requests: "requests (snd (get_soup w u d fx)) = requests fx @ [(u, d)]"
  by (simp add: get_soup_def)

lemma match_part_requests:
  assumes "(if c then report_match w soup fx else (None, fx)) = (r, fx')"
  shows "requests fx' = requests fx"
  using assms report_match_frame [of w soup fx r fx'] by (auto split: if_splits)

lemma process_page_requests:
  assumes "process_page w a st u d q fx = (r, q', fx')"
  shows "requests fx' = requests fx @ [(u, d)]"
  using assms
proof (cases rule: process_page_cases)
  case (request_raised e)
  then show ?thesis by (simp add: get_soup_requests)
next
  case (link_raised soup e)
  then show ?thesis by (simp add: get_soup_requests)
next
  case (match_raised soup e)
  then show ?thesis
    using report_match_frame [of w soup "snd (get_soup w u d fx)" "Some e" fx']
    by (simp add: get_soup_requests)
next
  case (checked soup fx2)
  then show ?thesis
    using match_part_requests [OF checked(3)] check_deadline_requests [OF checked(4)]
    by (simp add: get_soup_requests)
qed

text \<open>
  An invariant of the loop: a property of the two variables and the effects that holds
  when the loop is entered, that the skip of line 109 and the processing of a page
  preserve, and that printing preserves, holds when the loop is left.
\<close>

lemma crawl_invariant:
  assumes init: "I vis q fx"
    and skip: "\<And>vis u d rest fx. I vis ((u, d) # rest) fx \<Longrightarrow> u \<in> vis \<or> depth a < d
                  \<Longrightarrow> I vis rest fx"
    and page: "\<And>vis u d rest fx r q' fx'. I vis ((u, d) # rest) fx \<Longrightarrow> u \<notin> vis \<Longrightarrow> d \<le> depth a
                  \<Longrightarrow> process_page w a st u d rest fx = (r, q', fx')
                  \<Longrightarrow> I (insert u vis) q' fx'"
    and prt: "\<And>vis q fx s. I vis q fx \<Longrightarrow> I vis q (snd (py_print w s fx))"
    and res: "crawl w a st vis q fx = (x, vis', q', fx')"
  shows "I vis' q' fx'"
  using assms
proof (induction w a st vis q fx rule: crawl.induct)
  case (1 w a st vis fx)
  then show ?case by (simp add: crawl.simps)
next
  case (2 w a st vis u d rest fx)
  note init = "2.prems"(1) and skip = "2.prems"(2) and page = "2.prems"(3)
    and prt = "2.prems"(4) and res = "2.prems"(5)
  show ?case
  proof (cases "u \<in> vis \<or> depth a < d")
    case True
    then have "crawl w a st vis rest fx = (x, vis', q', fx')"
      using res by (simp add: crawl.simps)
    then show ?thesis
      using "2.IH"(1) [OF True skip [OF init True]] skip page prt by blast
  next
    case False
    obtain r q1 fx1 where pp: "process_page w a st u d rest fx = (r, q1, fx1)"
      by (cases "process_page w a st u d rest fx") auto
    have i1: "I (insert u vis) q1 fx1"
      using page [OF init _ _ pp] False by auto
    show ?thesis
    proof (cases r)
      case (Inl e)
      obtain r2 fx2 where pr: "py_print w (''Error processing URL '' @ u @ '': '' @ str_exn e) fx1
          = (r2, fx2)"
        by (cases "py_print w (''Error processing URL '' @ u @ '': '' @ str_exn e) fx1") auto
      have i2: "I (insert u vis) q1 fx2" using prt [OF i1, of "''Error processing URL '' @ u @ '': '' @ str_exn e"] pr by simp
      show ?thesis
      proof (cases r2)
        case (Some e')
        then have "(x, vis', q', fx') = (Some e', insert u vis, q1, fx2)"
          using res False pp Inl pr by (simp add: crawl.simps)
        then show ?thesis using i2 by simp
      next
        case None
        then have "crawl w a st (insert u vis) q1 fx2 = (x, vis', q', fx')"
          using res False pp Inl pr by (simp add: crawl.simps)
        then show ?thesis
          using "2.IH"(2) [OF False pp [symmetric] Inl refl pr [symmetric] None i2] skip page prt
          by blast
      qed
    next
      case (Inr b)
      show ?thesis
      proof (cases b)
        case True
        then have "(x, vis', q', fx') = (None, insert u vis, q1, fx1)"
          using res False pp Inr by (simp add: crawl.simps)
        then show ?thesis using i1 by simp
      next
        case False
        then have bF: "b = False" by simp
        have "crawl w a st (insert u vis) q1 fx1 = (x, vis', q', fx')"
          using res \<open>\<not> (u \<in> vis \<or> depth a < d)\<close> pp Inr False by (simp add: crawl.simps)
        then show ?thesis
          using "2.IH"(3) [OF \<open>\<not> (u \<in> vis \<or> depth a < d)\<close> pp [symmetric] Inr bF refl i1]
            skip page prt by blast
      qed
    qed
  qed
qed


text \<open>
  What a session requests is what its loop requests: opening the file, writing the
  header, closing the file and the handlers of lines 136 to 139 make no request.
\<close>

lemma write_all_frame:
  "write_all w ss fx = (r, fx') \<Longrightarrow>
     requests fx' = requests fx \<and> console fx' = console fx \<and> clock_reads fx' = clock_reads fx"
proof (induction ss arbitrary: fx)
  case Nil
  then show ?case by simp
next
  case (Cons s ss)
  obtain r1 fx1 where fw: "file_write w s fx = (r1, fx1)"
    by (cases "file_write w s fx") auto
  show ?case
  proof (cases r1)
    case None
    then have "write_all w ss fx1 = (r, fx')" using Cons.prems fw by simp
    then show ?thesis using Cons.IH [of fx1] file_write_frame [OF fw] by simp
  next
    case (Some e)
    then have "fx' = fx1" using Cons.prems fw by simp
    then show ?thesis using file_write_frame [OF fw] by simp
  qed
qed

lemma scrape_body_requests:
  assumes "P (requests fx)"
    and "\<And>fx0 x vis' q' fx'. requests fx0 = requests fx
           \<Longrightarrow> crawl w a st {} [(url a, 0)] fx0 = (x, vis', q', fx') \<Longrightarrow> P (requests fx')"
  shows "P (requests (snd (scrape_body w a st fx)))"
proof (cases "open_error w (output_file a)")
  case (Some e)
  then show ?thesis using assms(1) by (simp add: scrape_body_def open_w_def)
next
  case None
  let ?fx0 = "fx\<lparr>out_file := [], out_file_state := IsOpen, write_raised := False\<rparr>"
  obtain r1 fx1 where w1: "write_all w (header_lines a) ?fx0 = (r1, fx1)"
    by (cases "write_all w (header_lines a) ?fx0") auto
  have q1: "requests fx1 = requests fx" using write_all_frame [OF w1] by simp
  obtain x vis' q' fx' where cr: "crawl w a st {} [(url a, 0)] fx1 = (x, vis', q', fx')"
    by (cases "crawl w a st {} [(url a, 0)] fx1") auto
  have c: "P (requests fx')" using assms(2) [OF q1 cr] .
  obtain r2 fx2 where wb: "with_body w a st ?fx0 = (r2, fx2)"
    by (cases "with_body w a st ?fx0") auto
  have "fx2 = (if r1 \<noteq> None then fx1 else fx')"
    using wb w1 cr by (cases r1) (auto simp: with_body_def)
  then have "P (requests fx2)" using c q1 assms(1) by simp
  moreover have "requests (snd (scrape_body w a st fx)) = requests fx2"
    using None wb by (auto simp: scrape_body_def open_w_def close_file_def split: option.splits)
  ultimately show ?thesis by simp
qed

lemma scrape_articles_requests:
  assumes "P (requests fx)"
    and "\<And>st fx0 x vis' q' fx'. requests fx0 = requests fx
           \<Longrightarrow> crawl w a st {} [(url a, 0)] fx0 = (x, vis', q', fx') \<Longrightarrow> P (requests fx')"
  shows "P (requests (snd (scrape_articles w a fx)))"
proof -
  let ?st = "time_time w (clock_reads fx)"
  let ?fxc = "fx\<lparr>clock_reads := Suc (clock_reads fx), trace := trace fx @ [ClockRead]\<rparr>"
  have b: "P (requests (snd (scrape_body w a ?st ?fxc)))"
  proof (rule scrape_body_requests)
    show "P (requests ?fxc)" using assms(1) by simp
  next
    fix fx0 x vis' q' fx'
    assume "requests fx0 = requests ?fxc" and "crawl w a ?st {} [(url a, 0)] fx0 = (x, vis', q', fx')"
    then show "P (requests fx')" using assms(2) [of fx0 ?st x vis' q' fx'] by simp
  qed
  obtain r fxb where sb: "scrape_body w a ?st ?fxc = (r, fxb)"
    by (cases "scrape_body w a ?st ?fxc") auto
  show ?thesis
  proof (cases r)
    case None
    then show ?thesis using b sb by (simp add: scrape_articles_def read_clock_def)
  next
    case (Some e)
    obtain r2 fx2 where pr: "py_print w (handler_line a e) fxb = (r2, fx2)"
      by (cases "py_print w (handler_line a e) fxb") auto
    then show ?thesis using b sb Some py_print_frame [OF pr]
      by (simp add: scrape_articles_def read_clock_def)
  qed
qed


lemma crawl_depths:
  assumes "\<forall>e \<in> set (requests fx). snd e \<le> depth a"
    and "crawl w a st vis q fx = (x, vis', q', fx')"
  shows "\<forall>e \<in> set (requests fx'). snd e \<le> depth a"
proof (rule crawl_invariant [where I = "\<lambda>vis q fx. \<forall>e \<in> set (requests fx). snd e \<le> depth a",
      OF _ _ _ _ assms(2)])
  show "\<forall>e \<in> set (requests fx). snd e \<le> depth a" using assms by simp
next
  fix vis u d rest fx r q' fx'
  assume "\<forall>e \<in> set (requests fx). snd e \<le> depth a"
    and "d \<le> depth a" and "process_page w a st u d rest fx = (r, q', fx')"
  then show "\<forall>e \<in> set (requests fx'). snd e \<le> depth a"
    using process_page_requests [of w a st u d rest fx r q' fx'] by auto
qed (auto simp: py_print_def split: option.splits)

lemma sorted_constant: "\<forall>n \<in> set ns. n = (c::int) \<Longrightarrow> sorted ns"
  by (induction ns) auto

lemma level_order_page:
  assumes lo: "level_order ((u, d) # rest) fx"
    and new: "\<forall>e \<in> set new. snd e = d + 1"
    and rq: "requests fx' = requests fx @ [(u, d)]"
  shows "level_order (rest @ new) fx'"
proof -
  let ?R = "map snd (requests fx)" and ?Q = "map snd rest" and ?N = "map snd new"
  have s0: "sorted (?R @ d # ?Q)" using lo by (simp add: level_order_def)
  have n1: "\<forall>n \<in> set ?N. n = d + 1" using new by auto
  have sN: "sorted ?N" using sorted_constant [OF n1] .
  have q1: "\<forall>y \<in> set ?Q. d \<le> y" using s0 by (auto simp: sorted_append)
  have q2: "\<forall>y \<in> set ?Q. y \<le> d + 1"
  proof
    fix y assume "y \<in> set ?Q"
    then obtain e where e: "e \<in> set rest" "snd e = y" by auto
    have "snd e \<le> snd (u, d) + 1" using lo e(1) by (simp add: level_order_def)
    then show "y \<le> d + 1" using e(2) by simp
  qed
  have r1: "\<forall>x \<in> set ?R. x \<le> d" using s0 by (auto simp: sorted_append)
  have "sorted ((?R @ d # ?Q) @ ?N)"
    unfolding sorted_append [of "?R @ d # ?Q" ?N]
    using s0 sN n1 q2 r1 by auto
  then have s: "sorted (map snd (requests fx') @ map snd (rest @ new))"
    using rq by simp
  have "\<forall>e \<in> set (rest @ new). \<forall>e' \<in> set (rest @ new). snd e \<le> snd e' + 1"
  proof (intro ballI)
    fix e e' assume e: "e \<in> set (rest @ new)" and e': "e' \<in> set (rest @ new)"
    have b: "d \<le> snd e \<and> snd e \<le> d + 1" using e q1 q2 new by auto
    have b': "d \<le> snd e' \<and> snd e' \<le> d + 1" using e' q1 q2 new by auto
    show "snd e \<le> snd e' + 1" using b b' by simp
  qed
  then show ?thesis using s by (simp add: level_order_def)
qed

lemma crawl_level_order:
  assumes "level_order q fx" and "crawl w a st vis q fx = (x, vis', q', fx')"
  shows "level_order q' fx'"
proof (rule crawl_invariant [where I = "\<lambda>vis q fx. level_order q fx", OF _ _ _ _ assms(2)])
  show "level_order q fx" using assms by simp
next
  fix vis :: "string set" and u d rest fx
  assume "level_order ((u, d) # rest) fx"
  then show "level_order rest fx"
    by (simp add: level_order_def sorted_append)
next
  fix vis :: "string set" and u d rest fx r q' fx'
  assume lo: "level_order ((u, d) # rest) fx"
    and pp: "process_page w a st u d rest fx = (r, q', fx')"
  obtain new where new: "q' = rest @ new" "\<forall>e \<in> set new. snd e = d + 1"
    using process_page_queue [OF pp] by blast
  show "level_order q' fx'"
    using level_order_page [OF lo new(2) process_page_requests [OF pp]] new(1) by simp
next
  fix vis :: "string set" and q fx s
  assume "level_order q fx"
  then show "level_order q (snd (py_print w s fx))"
    by (simp add: level_order_def py_print_def split: option.splits)
qed

section \<open>Sessions on the worlds of the examples\<close>

text \<open>The two pages of the examples against the search term \<open>news\<close>.\<close>

lemma no_match: "str_in (ascii_lower ''news'') (ascii_lower ''nothing here'') = False"
  by code_simp

lemma match: "str_in (ascii_lower ''news'') (ascii_lower ''Good NEWS'') = True"
  by code_simp

text \<open>The definitions that a run on a given world unfolds.\<close>

lemmas run_simps =
  scrape_articles_def scrape_body_def with_body_def open_w_def close_file_def header_lines_def
  file_write_def read_clock_def py_print_def get_soup_def process_page_def report_match_def
  check_deadline_def crawl.simps no_effects_def links_only_def join_plain_def no_match

lemmas run_simps2 = run_simps match news_page_def title_of_def write_with_line_breaks_def
  write_lines.simps line_end_def slice_def newline_def

text \<open>The requests of a session on \<open>site\<close>, in their order.\<close>

lemma site_order:
  "map fst (requests (snd (scrape_articles site site_args no_effects)))
     = [''http://h/'', ''http://h/a/'', ''http://h/b/'', ''http://h/c/'']"
  by (simp add: run_simps site_def site_args_def)

section \<open>The claims about the traversal\<close>



text \<open>
  C6. An entry whose depth is greater than \<^verbatim>\<open>depth\<close> is dropped when it is taken
  from the queue: the loop goes on with the rest of the queue, and the visited set and
  the effects are as they were, so nothing is requested, parsed or queued for it. In a
  whole session every request is for an entry within the depth.
\<close>

theorem over_depth_entry_never_fetched:
  "(depth a < d \<longrightarrow> crawl w a st vis ((u, d) # rest) fx = crawl w a st vis rest fx)
   \<and> (\<forall>e \<in> set (requests (snd (scrape_articles w a no_effects))). snd e \<le> depth a)"
proof (intro conjI impI)
  assume "depth a < d"
  then show "crawl w a st vis ((u, d) # rest) fx = crawl w a st vis rest fx"
    by (simp add: crawl.simps)
next
  show "\<forall>e \<in> set (requests (snd (scrape_articles w a no_effects))). snd e \<le> depth a"
  proof (rule scrape_articles_requests [where P = "\<lambda>rs. \<forall>e \<in> set rs. snd e \<le> depth a"])
    show "\<forall>e \<in> set (requests no_effects). snd e \<le> depth a" by (simp add: no_effects_def)
  next
    fix st fx0 x vis' q' fx'
    assume "requests fx0 = requests no_effects"
      and "crawl w a st {} [(url a, 0)] fx0 = (x, vis', q', fx')"
    then show "\<forall>e \<in> set (requests fx'). snd e \<le> depth a"
      using crawl_depths [of fx0 a w st "{}" "[(url a, 0)]" x vis' q' fx']
      by (simp add: no_effects_def)
  qed
qed

text \<open>
  On \<open>site\<close> with depth 1 the entry for \<open>c\<close>, at depth 2, is dropped and the
  session requests the start page, \<open>a\<close> and \<open>b\<close> only.
\<close>

theorem over_depth_entry_never_fetched_witness:
  "depth (site_args\<lparr>depth := 1\<rparr>) < 2
   \<and> crawl site (site_args\<lparr>depth := 1\<rparr>) 0 {''http://h/''} [(''http://h/c/'', 2)] no_effects
       = (None, {''http://h/''}, [], no_effects)
   \<and> requests (snd (scrape_articles site (site_args\<lparr>depth := 1\<rparr>) no_effects))
       = [(''http://h/'', 0), (''http://h/a/'', 1), (''http://h/b/'', 1)]"
  using over_depth_entry_never_fetched [of "site_args\<lparr>depth := 1\<rparr>" 2 site 0
      "{''http://h/''}" "''http://h/c/''" "[]" no_effects]
  by (simp add: run_simps site_def site_args_def)

text \<open>
  C7. The queue is first in, first out, and the traversal is breadth first: the depths
  of the requests of a session never decrease from one request to the next, so no page
  is processed before a page of a lesser depth; the entries a page adds go behind every
  entry already queued, one level below the page. On \<open>site\<close>, where the start page
  links to \<open>a\<close> and \<open>b\<close> and \<open>a\<close> links to \<open>c\<close>, the order is start page,
  \<open>a\<close>, \<open>b\<close>, \<open>c\<close>.
\<close>

theorem breadth_first_order:
  "sorted (map snd (requests (snd (scrape_articles w a no_effects))))
   \<and> (process_page w a st u d rest fx = (r, q, fx') \<longrightarrow>
        (\<exists>new. q = rest @ new \<and> (\<forall>e \<in> set new. snd e = d + 1)))
   \<and> map fst (requests (snd (scrape_articles site site_args no_effects)))
       = [''http://h/'', ''http://h/a/'', ''http://h/b/'', ''http://h/c/'']"
proof (intro conjI impI)
  show "sorted (map snd (requests (snd (scrape_articles w a no_effects))))"
  proof (rule scrape_articles_requests [where P = "\<lambda>rs. sorted (map snd rs)"])
    show "sorted (map snd (requests no_effects))" by (simp add: no_effects_def)
  next
    fix st fx0 x vis' q' fx'
    assume "requests fx0 = requests no_effects"
      and cr: "crawl w a st {} [(url a, 0)] fx0 = (x, vis', q', fx')"
    then have "level_order [(url a, 0)] fx0" by (simp add: level_order_def no_effects_def)
    then have "level_order q' fx'" using crawl_level_order [OF _ cr] by simp
    then show "sorted (map snd (requests fx'))" by (simp add: level_order_def sorted_append)
  qed
next
  assume "process_page w a st u d rest fx = (r, q, fx')"
  then show "\<exists>new. q = rest @ new \<and> (\<forall>e \<in> set new. snd e = d + 1)"
    by (rule process_page_queue)
next
  show "map fst (requests (snd (scrape_articles site site_args no_effects)))
       = [''http://h/'', ''http://h/a/'', ''http://h/b/'', ''http://h/c/'']"
    by (rule site_order)
qed

text \<open>
  On \<open>site\<close> the start page, taken from a queue that holds \<open>z\<close> behind it, leaves
  \<open>z\<close> in front of its own links \<open>a\<close> and \<open>b\<close>.
\<close>

theorem breadth_first_order_witness:
  "process_page site site_args 0 ''http://h/'' 0 [(''http://h/z/'', 0)] no_effects
     = (Inr False, [(''http://h/z/'', 0), (''http://h/a/'', 1), (''http://h/b/'', 1)],
        no_effects\<lparr>requests := [(''http://h/'', 0)], clock_reads := 1,
          trace := [Requested ''http://h/'' 0, ClockRead]\<rparr>)
   \<and> map snd (requests (snd (scrape_articles site site_args no_effects))) = [0, 1, 1, 2]"
proof -
  have p: "process_page site site_args 0 ''http://h/'' 0 [(''http://h/z/'', 0)] no_effects
     = (Inr False, [(''http://h/z/'', 0), (''http://h/a/'', 1), (''http://h/b/'', 1)],
        no_effects\<lparr>requests := [(''http://h/'', 0)], clock_reads := 1,
          trace := [Requested ''http://h/'' 0, ClockRead]\<rparr>)"
    by (simp add: run_simps site_def site_args_def)
  have "map snd (requests (snd (scrape_articles site site_args no_effects))) = [0, 1, 1, 2]"
    by (simp add: run_simps site_def site_args_def)
  then show ?thesis
    using p breadth_first_order [of site site_args 0 "''http://h/''" 0 "[(''http://h/z/'', 0)]"
        no_effects] by simp
qed

text \<open>
  What the body of the inner \<^verbatim>\<open>try\<close> has done when it ends without an exception:
  the request, then the match line and the writes if the page matches, then one
  reading of the clock, then the timeout line if the time is over.
\<close>

lemma process_page_ok:
  assumes "process_page w a st u d rest fx = (Inr stop, q, fx')"
  shows "clock_reads fx' = Suc (clock_reads fx)
     \<and> stop = (run_time a < time_time w (clock_reads fx) - st)
     \<and> (\<exists>evs. trace fx' = trace fx @ Requested u d # evs @ ClockRead
              # (if stop then [Printed ''Scrape has timed out''] else [])
            \<and> ClockRead \<notin> set evs)"
  using assms
proof (cases rule: process_page_cases)
  case (checked soup fx2)
  let ?fx1 = "snd (get_soup w u d fx)"
  have f1: "clock_reads ?fx1 = clock_reads fx \<and> trace ?fx1 = trace fx @ [Requested u d]"
    by (simp add: get_soup_def)
  have "clock_reads fx2 = clock_reads ?fx1
     \<and> (\<exists>evs. trace fx2 = trace ?fx1 @ evs \<and> ClockRead \<notin> set evs)"
  proof (cases "str_in (str_lower w (search_string a)) (str_lower w (page_text soup))")
    case True
    then have "report_match w soup ?fx1 = (None, fx2)" using checked(3) by simp
    then show ?thesis using report_match_frame by blast
  next
    case False
    then have "fx2 = ?fx1" using checked(3) by simp
    then show ?thesis by simp
  qed
  then obtain evs where evs: "clock_reads fx2 = clock_reads fx"
      "trace fx2 = trace fx @ Requested u d # evs" "ClockRead \<notin> set evs"
    using f1 by auto
  note cd = check_deadline_ok [OF checked(4)]
  have "trace fx' = trace fx @ Requested u d # evs @ ClockRead
              # (if stop then [Printed ''Scrape has timed out''] else [])"
    using cd evs(2) by simp
  then show ?thesis using cd evs(1,3) by auto
qed auto

text \<open>
  C4, as the code has it. For an entry that is taken from the queue, not skipped, and
  for which the body of the inner \<^verbatim>\<open>try\<close> (request, parse, links, match, the
  writing of a match and the printing of its lines) raises no exception, the clock is
  read exactly once, after everything else that is done for the entry and before the
  next entry is taken. If the time since the start is greater than \<^verbatim>\<open>run_time\<close>,
  the line \<open>Scrape has timed out\<close> is printed and the loop is left, without an
  exception and with the rest of the queue untouched; otherwise the loop goes on with
  the next entry.
\<close>

theorem deadline_checked_after_each_page:
  assumes "u \<notin> vis" and "d \<le> depth a"
    and "process_page w a st u d rest fx = (Inr stop, q, fx')"
  shows "clock_reads fx' = Suc (clock_reads fx)
     \<and> stop = (run_time a < time_time w (clock_reads fx) - st)
     \<and> (\<exists>evs. trace fx' = trace fx @ Requested u d # evs @ ClockRead
              # (if stop then [Printed ''Scrape has timed out''] else [])
            \<and> ClockRead \<notin> set evs)
     \<and> crawl w a st vis ((u, d) # rest) fx
         = (if stop then (None, insert u vis, q, fx') else crawl w a st (insert u vis) q fx')"
proof -
  have "crawl w a st vis ((u, d) # rest) fx
         = (if stop then (None, insert u vis, q, fx') else crawl w a st (insert u vis) q fx')"
    using assms by (simp add: crawl.simps)
  then show ?thesis using process_page_ok [OF assms(3)] by blast
qed

text \<open>
  On \<open>late\<close> the start page is processed, the clock shows 1000 seconds against a
  \<^verbatim>\<open>run_time\<close> of 300, and the loop is left with \<open>a\<close> and \<open>b\<close> still queued.
\<close>

theorem deadline_checked_after_each_page_witness:
  "''http://h/'' \<notin> {} \<and> 0 \<le> depth site_args
   \<and> process_page late site_args 0 ''http://h/'' 0 [] no_effects
       = (Inr True, [(''http://h/a/'', 1), (''http://h/b/'', 1)],
          no_effects\<lparr>requests := [(''http://h/'', 0)], clock_reads := 1,
            console := [''Scrape has timed out''], print_calls := 1,
            trace := [Requested ''http://h/'' 0, ClockRead, Printed ''Scrape has timed out'']\<rparr>)
   \<and> crawl late site_args 0 {} [(''http://h/'', 0)] no_effects
       = (None, {''http://h/''}, [(''http://h/a/'', 1), (''http://h/b/'', 1)],
          no_effects\<lparr>requests := [(''http://h/'', 0)], clock_reads := 1,
            console := [''Scrape has timed out''], print_calls := 1,
            trace := [Requested ''http://h/'' 0, ClockRead, Printed ''Scrape has timed out'']\<rparr>)"
proof -
  have p: "process_page late site_args 0 ''http://h/'' 0 [] no_effects
       = (Inr True, [(''http://h/a/'', 1), (''http://h/b/'', 1)],
          no_effects\<lparr>requests := [(''http://h/'', 0)], clock_reads := 1,
            console := [''Scrape has timed out''], print_calls := 1,
            trace := [Requested ''http://h/'' 0, ClockRead, Printed ''Scrape has timed out'']\<rparr>)"
    by (simp add: run_simps late_def site_def site_args_def)
  have h1: "''http://h/'' \<notin> ({} :: string set)" by simp
  have h2: "0 \<le> depth site_args" by (simp add: site_args_def)
  show ?thesis
    using deadline_checked_after_each_page [OF h1 h2 p] p h2 by simp
qed

text \<open>
  C4 as the spec states it speaks of every entry that is fetched. On \<open>full_disk\<close> the
  start page is fetched and matches, the write of its text raises, and the handler of
  line 133 prints the failure: the clock is not read for this entry, and the next entry
  \<open>a\<close> is requested although 1000 seconds have passed against a \<^verbatim>\<open>run_time\<close> of
  300. The only readings of the clock are the one at the start and the one after \<open>a\<close>.
\<close>

theorem write_failure_skips_deadline_check:
  "requests_get full_disk 0 ''http://h/'' = Inr (news_page [Some ''http://h/a/''])
   \<and> trace (snd (scrape_articles full_disk site_args no_effects))
       = ClockRead # map Written (header_lines site_args)
         @ [Requested ''http://h/'' 0, Printed ''Found article: No title found'',
            WriteRaised (IOError ''No space left on device''),
            Printed ''Error processing URL http://h/: No space left on device'',
            Requested ''http://h/a/'' 1, ClockRead, Printed ''Scrape has timed out'',
            FileClosed]"
  by (simp add: run_simps2 full_disk_def site_args_def str_int_def str_nat.simps)

text \<open>Writes that all succeed.\<close>

lemma write_all_ok:
  "\<forall>n < length ss. write_error w (write_calls fx + n) = None \<Longrightarrow>
     write_all w ss fx
       = (None, fx\<lparr>out_file := out_file fx @ ss, write_calls := write_calls fx + length ss,
                    trace := trace fx @ map Written ss\<rparr>)"
proof (induction ss arbitrary: fx)
  case Nil
  show ?case by simp
next
  case (Cons s ss)
  have w0: "write_error w (write_calls fx) = None" using Cons.prems by force
  let ?fx1 = "fx\<lparr>out_file := out_file fx @ [s], write_calls := Suc (write_calls fx),
                   trace := trace fx @ [Written s]\<rparr>"
  have "\<forall>n < length ss. write_error w (write_calls ?fx1 + n) = None"
    using Cons.prems by force
  then show ?case using Cons.IH [of ?fx1] w0 by (simp add: file_write_def)
qed

text \<open>
  C10, as the code has it. With a negative \<^verbatim>\<open>depth\<close> no URL is requested. If
  moreover the file opens, takes the three writes of the header and closes without an
  exception, \<^verbatim>\<open>scrape_articles\<close> returns normally, nothing is printed, and the
  file holds the three header lines and nothing else.
\<close>

theorem negative_depth_fetches_nothing:
  assumes "depth a < 0"
  shows "requests (snd (scrape_articles w a fx)) = requests fx
     \<and> (open_error w (output_file a) = None
          \<and> (\<forall>n < 3. write_error w (write_calls fx + n) = None)
          \<and> close_error w = None \<longrightarrow>
        fst (scrape_articles w a fx) = None
        \<and> console (snd (scrape_articles w a fx)) = console fx
        \<and> file_on_disk w (snd (scrape_articles w a fx)) = Some (header_lines a))"
proof (intro conjI impI)
  show "requests (snd (scrape_articles w a fx)) = requests fx"
  proof (rule scrape_articles_requests [where P = "\<lambda>rs. rs = requests fx"])
    fix st fx0 x vis' q' fx'
    assume "requests fx0 = requests fx" and "crawl w a st {} [(url a, 0)] fx0 = (x, vis', q', fx')"
    then show "requests fx' = requests fx" using assms by (simp add: crawl.simps)
  qed simp
next
  assume ok: "open_error w (output_file a) = None
          \<and> (\<forall>n < 3. write_error w (write_calls fx + n) = None)
          \<and> close_error w = None"
  let ?fx0 = "fx\<lparr>clock_reads := Suc (clock_reads fx), trace := trace fx @ [ClockRead],
                  out_file := [], out_file_state := IsOpen, write_raised := False\<rparr>"
  let ?fx1 = "?fx0\<lparr>out_file := out_file ?fx0 @ header_lines a,
                      write_calls := write_calls ?fx0 + length (header_lines a),
                      trace := trace ?fx0 @ map Written (header_lines a)\<rparr>"
  have "\<forall>n < length (header_lines a). write_error w (write_calls ?fx0 + n) = None"
    using ok by (simp add: header_lines_def)
  then have wa: "write_all w (header_lines a) ?fx0 = (None, ?fx1)"
    by (rule write_all_ok)
  have sa: "scrape_articles w a fx
      = (None, ?fx1\<lparr>out_file_state := IsClosed, trace := trace ?fx1 @ [FileClosed]\<rparr>)"
    using ok assms
    by (simp add: scrape_articles_def scrape_body_def with_body_def read_clock_def open_w_def
        close_file_def wa crawl.simps)
  show "fst (scrape_articles w a fx) = None" by (simp add: sa)
  show "console (snd (scrape_articles w a fx)) = console fx" by (simp add: sa)
  show "file_on_disk w (snd (scrape_articles w a fx)) = Some (header_lines a)"
    by (simp add: sa file_on_disk_def)
qed

text \<open>The session on \<open>site\<close> with depth \<open>- 1\<close>.\<close>

theorem negative_depth_fetches_nothing_witness:
  "depth below_zero < 0 \<and> open_error site (output_file below_zero) = None
   \<and> write_error site 0 = None \<and> write_error site 1 = None \<and> write_error site 2 = None
   \<and> close_error site = None
   \<and> fst (scrape_articles site below_zero no_effects) = None
   \<and> requests (snd (scrape_articles site below_zero no_effects)) = []
   \<and> console (snd (scrape_articles site below_zero no_effects)) = []
   \<and> file_on_disk site (snd (scrape_articles site below_zero no_effects))
       = Some [''Search Term: news'' @ newline, ''URL: http://h/'' @ newline,
               ''Search Depth: -1'' @ newline]"
proof -
  have d: "depth below_zero < 0" by (simp add: below_zero_def)
  have h: "[''Search Term: news'' @ newline, ''URL: http://h/'' @ newline,
          ''Search Depth: -1'' @ newline] = header_lines below_zero"
    by code_simp
  have ok: "open_error site (output_file below_zero) = None
      \<and> (\<forall>n < 3. write_error site (write_calls no_effects + n) = None)
      \<and> close_error site = None"
    by (simp add: site_def)
  have "fst (scrape_articles site below_zero no_effects) = None
     \<and> requests (snd (scrape_articles site below_zero no_effects)) = requests no_effects
     \<and> console (snd (scrape_articles site below_zero no_effects)) = console no_effects
     \<and> file_on_disk site (snd (scrape_articles site below_zero no_effects))
         = Some (header_lines below_zero)"
    using negative_depth_fetches_nothing [OF d, of site no_effects] ok by blast
  then show ?thesis
    using d ok h by (simp add: site_def no_effects_def)
qed

text \<open>
  C10 as the spec states it asks only that the file opens. On \<open>dev_full\<close> the file
  opens and the three writes of the header return, their data in the buffer; the close
  raises \<^verbatim>\<open>IOError\<close>, the handler of line 137 prints it, and the file on the disk is
  empty.
\<close>

theorem close_failure_leaves_file_empty:
  "depth below_zero < 0 \<and> open_error dev_full (output_file below_zero) = None
   \<and> console (snd (scrape_articles dev_full below_zero no_effects))
       = [''Error opening or writing to output file out.txt: No space left on device'']
   \<and> file_on_disk dev_full (snd (scrape_articles dev_full below_zero no_effects)) = Some []
   \<and> file_on_disk dev_full (snd (scrape_articles dev_full below_zero no_effects))
       \<noteq> Some (header_lines below_zero)"
  by (simp add: run_simps file_on_disk_def dev_full_def below_zero_def site_def site_args_def)

text \<open>
  C1, at an input on which the code departs from it. On \<open>nested\<close> the page
  \<open>http://h/a/\<close>, found at depth 1, has the relative link \<open>b\<close>, which joined to
  the page's own URL is \<open>http://h/a/b\<close>. Line 120 joins it to \<^verbatim>\<open>url\<close>, the start
  URL, and the session requests \<open>http://h/b\<close> instead.
\<close>

theorem relative_link_joined_to_start_url:
  "urljoin nested ''http://h/a/'' ''b'' = Inr ''http://h/a/b''
   \<and> requests (snd (scrape_articles nested site_args no_effects))
       = [(''http://h/'', 0), (''http://h/a/'', 1), (''http://h/b'', 2)]"
  by (simp add: run_simps nested_def site_args_def)







end
